theory Spec2Isabelle
  imports Complex_Main "HOL-Library.AList" "HOL-Library.Multiset"
begin

section \<open>JavaScript values used by the aggregation pipeline\<close>

text \<open>
  The pipeline of \<^verbatim>\<open>src/aggregator.ts\<close> is embedded function by function.
  Conventions of the embedding:
  \<^item> an instant (a valid \<^verbatim>\<open>Date\<close>) is its \<^verbatim>\<open>getTime()\<close>, an \<open>int\<close> of
    milliseconds since the epoch; the parser never stores an invalid date, and the
    representable range of \<^verbatim>\<open>Date\<close> is not modelled;
  \<^item> a finite JavaScript number is an exact rational: rounding of doubles is not modelled;
  \<^item> a \<^verbatim>\<open>number\<close> that may be anything (the idle threshold, the two metrics of a
    record) is a \<open>jsnum\<close>, with the IEEE special values;
  \<^item> a value stored in the per-title accumulator is a \<open>jsval\<close>: a finite number, or a
    non-empty string whose characters are not modelled (\<open>JStr\<close>).  Once a string, always
    a string: \<^verbatim>\<open>+\<close> with a string operand concatenates.
\<close>

datatype jsnum = Finite rat | NaN | PosInfinity | NegInfinity

text \<open>\<^verbatim>\<open>gapSec <= ignoreIdleTimeUpToSec\<close> for a finite gap: false against \<^verbatim>\<open>NaN\<close>.\<close>

fun gapLeq :: "rat \<Rightarrow> jsnum \<Rightarrow> bool" where
  "gapLeq g (Finite t) = (g \<le> t)"
| "gapLeq g PosInfinity = True"
| "gapLeq g NegInfinity = False"
| "gapLeq g NaN = False"

text \<open>The strict comparison \<^verbatim>\<open>gapSec > threshold\<close>, also false against \<^verbatim>\<open>NaN\<close>.\<close>

fun gapGreater :: "rat \<Rightarrow> jsnum \<Rightarrow> bool" where
  "gapGreater g (Finite t) = (t < g)"
| "gapGreater g PosInfinity = False"
| "gapGreater g NegInfinity = True"
| "gapGreater g NaN = False"

datatype jsval = JNum rat | JStr

text \<open>The binary \<^verbatim>\<open>+\<close> on stored values.\<close>

fun jsPlus :: "jsval \<Rightarrow> jsval \<Rightarrow> jsval" where
  "jsPlus (JNum a) (JNum b) = JNum (a + b)"
| "jsPlus _ _ = JStr"

section \<open>Data model\<close>

record CsvEntry =
  timestamp :: int
  appName :: string
  title :: string
  value1 :: jsnum
  value2 :: jsnum

record AggregatedActivity =
  title :: string
  durationSec :: jsval

record AggregatedBlock =
  from_t :: int
  to_t :: int
  totalDurationSec :: jsval
  activities :: "AggregatedActivity list"

section \<open>The accumulator object\<close>

text \<open>
  \<^verbatim>\<open>let activityMap: Record<string, number> = {}\<close> is an ordinary object created by an
  object literal: its prototype is \<^verbatim>\<open>Object.prototype\<close>.  Its own properties are kept
  as an association list in order of creation.
\<close>

type_synonym jsobject = "(string \<times> jsval) list"

text \<open>The property names every ordinary object inherits from \<^verbatim>\<open>Object.prototype\<close>.\<close>

definition objectPrototypeKeys :: "string list" where
  "objectPrototypeKeys =
    [''constructor'', ''__defineGetter__'', ''__defineSetter__'', ''hasOwnProperty'',
     ''__lookupGetter__'', ''__lookupSetter__'', ''isPrototypeOf'', ''propertyIsEnumerable'',
     ''toString'', ''valueOf'', ''__proto__'', ''toLocaleString'']"

text \<open>
  The result of reading \<^verbatim>\<open>activityMap[k]\<close>: an own property, a function or object found
  on the prototype, or \<^verbatim>\<open>undefined\<close>.
\<close>

datatype lookup = Undefined | Own jsval | Inherited

definition getProp :: "jsobject \<Rightarrow> string \<Rightarrow> lookup" where
  "getProp m k =
    (case map_of m k of
       Some v \<Rightarrow> Own v
     | None \<Rightarrow> if k \<in> set objectPrototypeKeys then Inherited else Undefined)"

text \<open>
  \<^verbatim>\<open>(activityMap[k] || 0) + gapSec\<close>.  \<^verbatim>\<open>undefined\<close> and the number zero are falsy
  and replaced by \<^verbatim>\<open>0\<close>; a non-empty string, a function and an object are truthy, and
  adding a number to any of them yields a string.
\<close>

fun orZeroPlus :: "lookup \<Rightarrow> rat \<Rightarrow> jsval" where
  "orZeroPlus Undefined g = JNum (0 + g)"
| "orZeroPlus (Own (JNum a)) g = JNum ((if a = 0 then 0 else a) + g)"
| "orZeroPlus (Own JStr) g = JStr"
| "orZeroPlus Inherited g = JStr"

text \<open>
  The assignment \<^verbatim>\<open>activityMap[k] = v\<close> of a primitive \<open>v\<close>.  The key
  \<^verbatim>\<open>__proto__\<close> reaches the accessor of \<^verbatim>\<open>Object.prototype\<close>, whose setter ignores
  a value that is neither an object nor null.  Any other key overwrites the own property
  in place, or creates it after the existing ones.
\<close>

definition setProp :: "jsobject \<Rightarrow> string \<Rightarrow> jsval \<Rightarrow> jsobject" where
  "setProp m k v = (if k = ''__proto__'' then m else AList.update k v m)"

text \<open>
  An array index is the canonical decimal string of an integer from 0 to \<open>2^32 - 2\<close>.
\<close>

definition isDigit :: "char \<Rightarrow> bool" where
  "isDigit c = (48 \<le> (of_char c :: nat) \<and> (of_char c :: nat) \<le> 57)"

definition digitsValue :: "string \<Rightarrow> nat" where
  "digitsValue s = foldl (\<lambda>n c. 10 * n + ((of_char c :: nat) - 48)) 0 s"

definition isArrayIndex :: "string \<Rightarrow> bool" where
  "isArrayIndex s =
    (s \<noteq> [] \<and> list_all isDigit s \<and> (length s = 1 \<or> hd s \<noteq> CHR ''0'')
     \<and> digitsValue s \<le> 4294967294)"

text \<open>
  \<^verbatim>\<open>Object.entries\<close> and \<^verbatim>\<open>Object.values\<close> enumerate the own properties in the order
  of \<^verbatim>\<open>OrdinaryOwnPropertyKeys\<close>: array indices in ascending numeric order first, then
  the other string keys in order of creation.
\<close>

definition ownEntries :: "jsobject \<Rightarrow> (string \<times> jsval) list" where
  "ownEntries m =
     sort_key (\<lambda>p. digitsValue (fst p)) (filter (\<lambda>p. isArrayIndex (fst p)) m)
     @ filter (\<lambda>p. \<not> isArrayIndex (fst p)) m"

section \<open>Block aggregator\<close>

text \<open>
  The block pushed by both \<^verbatim>\<open>blocks.push\<close> calls:
  \<^verbatim>\<open>Object.values(activityMap).reduce((sum, d) => sum + d, 0)\<close> and
  \<^verbatim>\<open>Object.entries(activityMap).map(([title, durationSec]) => ({ title, durationSec }))\<close>.
\<close>

definition closeBlock :: "int \<Rightarrow> int \<Rightarrow> jsobject \<Rightarrow> AggregatedBlock" where
  "closeBlock blockStart blockEnd activityMap =
    \<lparr> from_t = blockStart, to_t = blockEnd,
      totalDurationSec = foldl jsPlus (JNum 0) (map snd (ownEntries activityMap)),
      activities = map (\<lambda>p. \<lparr> AggregatedActivity.title = fst p, durationSec = snd p \<rparr>)
                       (ownEntries activityMap) \<rparr>"

definition gapSec :: "CsvEntry \<Rightarrow> CsvEntry \<Rightarrow> rat" where
  "gapSec current next = of_int (timestamp next - timestamp current) / 1000"

text \<open>
  The \<^verbatim>\<open>for\<close> loop over the consecutive pairs \<open>(entries[i], entries[i + 1])\<close>, followed
  by the push of the final block.  The arguments after the remaining entries are the loop's
  variables \<^verbatim>\<open>blocks\<close>, \<^verbatim>\<open>blockStart\<close>, \<^verbatim>\<open>blockEnd\<close> and \<^verbatim>\<open>activityMap\<close>.
\<close>

fun scan :: "jsnum \<Rightarrow> CsvEntry list \<Rightarrow> AggregatedBlock list \<Rightarrow> int \<Rightarrow> int \<Rightarrow> jsobject
    \<Rightarrow> AggregatedBlock list" where
  "scan thr (current # next # rest) blocks blockStart blockEnd activityMap =
    (if gapLeq (gapSec current next) thr
     then scan thr (next # rest) blocks blockStart (timestamp next)
            (setProp activityMap (CsvEntry.title current)
               (orZeroPlus (getProp activityMap (CsvEntry.title current)) (gapSec current next)))
     else scan thr (next # rest) (blocks @ [closeBlock blockStart blockEnd activityMap])
            (timestamp next) (timestamp next) [])"
| "scan thr [current] blocks blockStart blockEnd activityMap =
     blocks @ [closeBlock blockStart blockEnd activityMap]"
| "scan thr [] blocks blockStart blockEnd activityMap =
     blocks @ [closeBlock blockStart blockEnd activityMap]"

definition aggregateToBlocks :: "CsvEntry list \<Rightarrow> jsnum \<Rightarrow> AggregatedBlock list" where
  "aggregateToBlocks entries ignoreIdleTimeUpToSec =
    (case entries of
       [] \<Rightarrow> []
     | e # _ \<Rightarrow> scan ignoreIdleTimeUpToSec entries [] (timestamp e) (timestamp e) [])"

section \<open>Record parser\<close>

text \<open>
  Strings are lists of 8-bit characters.  \<^verbatim>\<open>String.prototype.trim\<close> removes white space
  and line terminators from both ends; of those, the code points below 256 are listed.
\<close>

definition isWhiteSpace :: "char \<Rightarrow> bool" where
  "isWhiteSpace c = ((of_char c :: nat) \<in> set [9, 10, 11, 12, 13, 32, 160])"

definition trim :: "string \<Rightarrow> string" where
  "trim s = rev (dropWhile isWhiteSpace (rev (dropWhile isWhiteSpace s)))"

text \<open>Adding a character to the first piece of a split.\<close>

fun consHead :: "char \<Rightarrow> string list \<Rightarrow> string list" where
  "consHead x [] = [[x]]"
| "consHead x (p # ps) = (x # p) # ps"

text \<open>\<^verbatim>\<open>line.split(',')\<close>: the empty string splits into one empty field.\<close>

fun splitComma :: "string \<Rightarrow> string list" where
  "splitComma [] = [[]]"
| "splitComma (x # xs) =
    (if x = CHR '','' then [] # splitComma xs else consHead x (splitComma xs))"

text \<open>\<^verbatim>\<open>csvText.split(/\r?\n/)\<close>: a line feed, with the carriage return before it if any.\<close>

fun splitLines :: "string \<Rightarrow> string list" where
  "splitLines [] = [[]]"
| "splitLines [x] = (if x = CHR 0x0A then [[], []] else [[x]])"
| "splitLines (x # y # xs) =
    (if x = CHR 0x0D \<and> y = CHR 0x0A then [] # splitLines xs
     else if x = CHR 0x0A then [] # splitLines (y # xs)
     else consHead x (splitLines (y # xs)))"

text \<open>
  The body of the \<^verbatim>\<open>for\<close> loop for one line; \<open>None\<close> is a \<^verbatim>\<open>continue\<close> without a
  push.  The host's date parser \<^verbatim>\<open>new Date(s)\<close> and number conversion \<^verbatim>\<open>Number(s)\<close>
  are parameters: \<open>newDate s = None\<close> stands for an invalid date, whose \<^verbatim>\<open>getTime()\<close>
  is \<^verbatim>\<open>NaN\<close>.  Neither of them nor \<^verbatim>\<open>trim\<close> throws, so the \<^verbatim>\<open>catch\<close> branch, a
  \<^verbatim>\<open>continue\<close> as well, is never taken.
\<close>

definition parseLine :: "(string \<Rightarrow> int option) \<Rightarrow> (string \<Rightarrow> jsnum) \<Rightarrow> string \<Rightarrow> CsvEntry option" where
  "parseLine newDate toNumber line =
    (let parts = splitComma line in
     if length parts < 3 then None
     else
       (case newDate (trim (parts ! 0)) of
          None \<Rightarrow> None
        | Some ts \<Rightarrow>
            Some \<lparr> timestamp = ts,
                   appName = trim (parts ! 1),
                   CsvEntry.title = trim (parts ! 2),
                   value1 = (if length parts > 3 then toNumber (trim (parts ! 3)) else NaN),
                   value2 = (if length parts > 4 then toNumber (trim (parts ! 4)) else NaN) \<rparr>))"

text \<open>The loop over the lines, with the array \<^verbatim>\<open>entries\<close> as accumulator.\<close>

fun parseLines :: "(string \<Rightarrow> int option) \<Rightarrow> (string \<Rightarrow> jsnum) \<Rightarrow> string list
    \<Rightarrow> CsvEntry list \<Rightarrow> CsvEntry list" where
  "parseLines newDate toNumber [] entries = entries"
| "parseLines newDate toNumber (line # lines) entries =
    (case parseLine newDate toNumber line of
       None \<Rightarrow> parseLines newDate toNumber lines entries
     | Some e \<Rightarrow> parseLines newDate toNumber lines (entries @ [e]))"

definition csvLines :: "string \<Rightarrow> string list" where
  "csvLines csvText = filter (\<lambda>line. trim line \<noteq> []) (splitLines csvText)"

text \<open>
  \<^verbatim>\<open>Array.prototype.sort\<close> with the comparator \<^verbatim>\<open>a.timestamp - b.timestamp\<close>.  Since
  ECMAScript 2019 the sort is required to be stable; it is modelled by the stable insertion
  sort \<open>sort_key\<close>.
\<close>

definition parseCsv :: "(string \<Rightarrow> int option) \<Rightarrow> (string \<Rightarrow> jsnum) \<Rightarrow> string \<Rightarrow> CsvEntry list" where
  "parseCsv newDate toNumber csvText =
     sort_key timestamp (parseLines newDate toNumber (csvLines csvText) [])"

section \<open>Calendar grouper\<close>

record DayData =
  date :: int
  blocks :: "AggregatedBlock list"
  totalDurationSec :: jsval

record WeekData =
  weekStart :: int
  days :: "DayData list"
  totalDurationSec :: jsval









section \<open>Specification-level notions\<close>

text \<open>
  The definitions of this section are not in the source: they say in terms of the input
  what the claims speak about, and the theorems relate the code to them.
\<close>

text \<open>
  The maximal runs of consecutive records whose gaps are all within the threshold.
\<close>

fun runs :: "jsnum \<Rightarrow> CsvEntry list \<Rightarrow> CsvEntry list list" where
  "runs thr [] = []"
| "runs thr [e] = [[e]]"
| "runs thr (current # next # rest) =
    (if gapLeq (gapSec current next) thr
     then (case runs thr (next # rest) of r # rs \<Rightarrow> (current # r) # rs | [] \<Rightarrow> [[current]])
     else [current] # runs thr (next # rest))"

text \<open>The accumulator after the gaps between the consecutive records of a run.\<close>

fun absorb :: "CsvEntry list \<Rightarrow> jsobject \<Rightarrow> jsobject" where
  "absorb (current # next # rest) m =
     absorb (next # rest)
       (setProp m (CsvEntry.title current)
          (orZeroPlus (getProp m (CsvEntry.title current)) (gapSec current next)))"
| "absorb [current] m = m"
| "absorb [] m = m"

definition blockOfRun :: "CsvEntry list \<Rightarrow> AggregatedBlock" where
  "blockOfRun r = closeBlock (timestamp (hd r)) (timestamp (last r)) (absorb r [])"

text \<open>The gaps between the consecutive records of a run, and their sum.\<close>

fun gaps :: "CsvEntry list \<Rightarrow> rat list" where
  "gaps (current # next # rest) = gapSec current next # gaps (next # rest)"
| "gaps [current] = []"
| "gaps [] = []"

text \<open>The block of a record that is alone in its block.\<close>

definition singleBlock :: "CsvEntry \<Rightarrow> AggregatedBlock" where
  "singleBlock e =
    \<lparr> from_t = timestamp e, to_t = timestamp e,
      AggregatedBlock.totalDurationSec = JNum 0, activities = [] \<rparr>"

text \<open>The elements of a list in order of first occurrence.\<close>

definition firstOccurrences :: "'a list \<Rightarrow> 'a list" where
  "firstOccurrences xs = foldl (\<lambda>acc x. if x \<in> set acc then acc else acc @ [x]) [] xs"

text \<open>Thresholds below zero, and thresholds of at least zero.\<close>

fun isNegative :: "jsnum \<Rightarrow> bool" where
  "isNegative (Finite t) = (t < 0)"
| "isNegative NegInfinity = True"
| "isNegative PosInfinity = False"
| "isNegative NaN = False"

fun isNonNegative :: "jsnum \<Rightarrow> bool" where
  "isNonNegative (Finite t) = (0 \<le> t)"
| "isNonNegative PosInfinity = True"
| "isNonNegative NegInfinity = False"
| "isNonNegative NaN = False"

text \<open>A line the parser drops: too few fields, or a first field that is no timestamp.\<close>

definition malformed :: "(string \<Rightarrow> int option) \<Rightarrow> string \<Rightarrow> bool" where
  "malformed newDate line =
    (length (splitComma line) < 3 \<or> newDate (trim (hd (splitComma line))) = None)"

text \<open>
  The order in which \<^verbatim>\<open>Object.entries\<close> lists property names that were created in the
  order \<open>ks\<close>.
\<close>

definition keyOrder :: "string list \<Rightarrow> string list" where
  "keyOrder ks = sort_key digitsValue (filter isArrayIndex ks) @ filter (\<lambda>k. \<not> isArrayIndex k) ks"

text \<open>The numeric content of the accumulator.\<close>

fun numOf :: "jsval \<Rightarrow> rat" where
  "numOf (JNum a) = a"
| "numOf JStr = 0"

fun isNum :: "jsval \<Rightarrow> bool" where
  "isNum (JNum a) = True"
| "isNum JStr = False"

definition valueSum :: "jsobject \<Rightarrow> rat" where
  "valueSum m = sum_list (map (\<lambda>p. numOf (snd p)) m)"




text \<open>A host date parser and number conversion for the examples.\<close>

definition exampleDate :: "string \<Rightarrow> int option" where
  "exampleDate s =
    (if s = ''1970-01-01T00:00:00Z'' then Some 0
     else if s = ''1970-01-01T00:01:00Z'' then Some 60000
     else None)"

definition exampleNumber :: "string \<Rightarrow> jsnum" where
  "exampleNumber s = (if s = ''1'' then Finite 1 else if s = ''2'' then Finite 2 else NaN)"


text \<open>A record for the examples.\<close>

definition entry :: "int \<Rightarrow> string \<Rightarrow> CsvEntry" where
  "entry t s =
    \<lparr> timestamp = t, appName = ''App'', CsvEntry.title = s, value1 = NaN, value2 = NaN \<rparr>"

section \<open>The scan and the runs\<close>

lemma scan_append:
  "scan thr es bs s e m = bs @ scan thr es [] s e m"
proof (induction es arbitrary: bs s e m)
  case Nil
  then show ?case by simp
next
  case (Cons c rest)
  show ?case
  proof (cases rest)
    case Nil
    then show ?thesis by simp
  next
    case (Cons n rest')
    show ?thesis
    proof (cases "gapLeq (gapSec c n) thr")
      case True
      with Cons.IH[of bs s "timestamp n"] Cons show ?thesis by simp
    next
      case False
      with Cons.IH[of "bs @ [closeBlock s e m]" "timestamp n" "timestamp n" "[]"]
        Cons.IH[of "[closeBlock s e m]" "timestamp n" "timestamp n" "[]"] Cons
      show ?thesis by simp
    qed
  qed
qed

lemma runs_Cons_shape:
  "\<exists>r rs. runs thr (e # es) = (e # r) # rs"
proof (induction es arbitrary: e)
  case Nil
  then show ?case by simp
next
  case (Cons n rest)
  from Cons[of n] obtain r rs where "runs thr (n # rest) = (n # r) # rs" by blast
  then show ?case by simp
qed

lemma scan_runs:
  "\<exists>r rs. runs thr (c # rest) = r # rs \<and>
     scan thr (c # rest) [] s (timestamp c) m
       = closeBlock s (timestamp (last r)) (absorb r m) # map blockOfRun rs"
proof (induction rest arbitrary: c s m)
  case Nil
  then show ?case by simp
next
  case (Cons n rest)
  obtain r0 rs0 where shape: "runs thr (n # rest) = (n # r0) # rs0"
    using runs_Cons_shape by blast
  show ?case
  proof (cases "gapLeq (gapSec c n) thr")
    case True
    from Cons[of n s "setProp m (CsvEntry.title c)
          (orZeroPlus (getProp m (CsvEntry.title c)) (gapSec c n))"] shape True
    show ?thesis by simp
  next
    case False
    from Cons[of n "timestamp n" "[]"] shape False
    show ?thesis
      by (simp add: scan_append[of thr "n # rest" "[x]" for x] blockOfRun_def)
  qed
qed

lemma aggregate_runs: "aggregateToBlocks es thr = map blockOfRun (runs thr es)"
proof (cases es)
  case Nil
  then show ?thesis by (simp add: aggregateToBlocks_def)
next
  case (Cons e rest)
  obtain r0 rs0 where shape: "runs thr (e # rest) = (e # r0) # rs0"
    using runs_Cons_shape by blast
  with scan_runs[of thr e rest "timestamp e" "[]"] Cons
  show ?thesis by (simp add: aggregateToBlocks_def blockOfRun_def)
qed

lemma ownEntries_Nil: "ownEntries [] = []"
  by (simp add: ownEntries_def)

lemma closeBlock_empty: "closeBlock s e [] =
  \<lparr> from_t = s, to_t = e, AggregatedBlock.totalDurationSec = JNum 0, activities = [] \<rparr>"
  by (simp add: closeBlock_def ownEntries_Nil)

lemma blockOfRun_single: "blockOfRun [e] = singleBlock e"
  by (simp add: blockOfRun_def singleBlock_def closeBlock_empty)

lemma from_blockOfRun: "from_t (blockOfRun r) = timestamp (hd r)"
  by (simp add: blockOfRun_def closeBlock_def)

lemma to_blockOfRun: "to_t (blockOfRun r) = timestamp (last r)"
  by (simp add: blockOfRun_def closeBlock_def)

lemma concat_runs: "concat (runs thr es) = es"
proof (induction thr es rule: runs.induct)
  case (3 thr current "next" rest)
  obtain r rs where "runs thr (next # rest) = (next # r) # rs"
    using runs_Cons_shape by blast
  with 3 show ?case by (cases "gapLeq (gapSec current next) thr") auto
qed simp_all

lemma runs_nonempty: "[] \<notin> set (runs thr es)"
proof (induction thr es rule: runs.induct)
  case (3 thr current "next" rest)
  obtain r rs where "runs thr (next # rest) = (next # r) # rs"
    using runs_Cons_shape by blast
  with 3 show ?case by (cases "gapLeq (gapSec current next) thr") auto
qed simp_all

lemma runs_last: "es \<noteq> [] \<Longrightarrow> runs thr es \<noteq> [] \<and> last (last (runs thr es)) = last es"
proof (induction thr es rule: runs.induct)
  case (3 thr current "next" rest)
  obtain r rs where "runs thr (next # rest) = (next # r) # rs"
    using runs_Cons_shape by blast
  with 3 show ?case by (cases "gapLeq (gapSec current next) thr") auto
qed simp_all

lemma runs_within:
  "list_all (successively (\<lambda>a b. gapLeq (gapSec a b) thr)) (runs thr es)"
proof (induction thr es rule: runs.induct)
  case (3 thr current "next" rest)
  obtain r rs where "runs thr (next # rest) = (next # r) # rs"
    using runs_Cons_shape by blast
  with 3 show ?case by (cases "gapLeq (gapSec current next) thr") auto
qed simp_all

lemma runs_between:
  "successively (\<lambda>r1 r2. \<not> gapLeq (gapSec (last r1) (hd r2)) thr) (runs thr es)"
proof (induction thr es rule: runs.induct)
  case (3 thr current "next" rest)
  obtain r rs where shape: "runs thr (next # rest) = (next # r) # rs"
    using runs_Cons_shape by blast
  show ?case
  proof (cases "gapLeq (gapSec current next) thr")
    case True
    with 3 shape show ?thesis by (cases rs) auto
  next
    case False
    with 3 shape show ?thesis by auto
  qed
qed simp_all

lemma runs_sorted:
  "sorted (map timestamp es) \<Longrightarrow> list_all (\<lambda>r. sorted (map timestamp r)) (runs thr es)"
proof (induction thr es rule: runs.induct)
  case (3 thr current "next" rest)
  obtain r rs where shape: "runs thr (next # rest) = (next # r) # rs"
    using runs_Cons_shape by blast
  have sub: "set r \<subseteq> set rest"
    using concat_runs[of thr "next # rest"] shape by auto
  show ?case
  proof (cases "gapLeq (gapSec current next) thr")
    case True
    with 3 shape sub show ?thesis by auto
  next
    case False
    with 3 shape show ?thesis by auto
  qed
qed simp_all

lemma sorted_hd_le_last:
  "sorted (map timestamp r) \<Longrightarrow> r \<noteq> [] \<Longrightarrow> timestamp (hd r) \<le> timestamp (last r)"
  by (cases r) auto

lemma runs_negative:
  "isNegative thr \<Longrightarrow> sorted (map timestamp es) \<Longrightarrow> runs thr es = map (\<lambda>e. [e]) es"
proof (induction thr es rule: runs.induct)
  case (3 thr current "next" rest)
  have "0 \<le> gapSec current next" using 3(4) by (simp add: gapSec_def)
  with 3(3) have "\<not> gapLeq (gapSec current next) thr" by (cases thr) auto
  with 3 show ?case by simp
qed simp_all

lemma not_leq_greater:
  "isNonNegative thr \<Longrightarrow> \<not> gapLeq g thr \<Longrightarrow> gapGreater g thr \<and> 0 < g"
  by (cases thr) auto

lemma chain_sorted_wrt:
  "successively (\<lambda>a b. to_t a < from_t b) bs \<Longrightarrow> list_all (\<lambda>b. from_t b \<le> to_t b) bs
    \<Longrightarrow> sorted_wrt (\<lambda>a b. to_t a < from_t b) bs"
proof (induction bs rule: induct_list012)
  case (3 a b bs)
  then have IH: "sorted_wrt (\<lambda>a b. to_t a < from_t b) (b # bs)" by simp
  have "to_t a < from_t b" "from_t b \<le> to_t b" using 3(3,4) by auto
  with IH have "\<forall>c\<in>set bs. to_t a < from_t c" by auto
  with IH \<open>to_t a < from_t b\<close> show ?case by simp
qed simp_all

section \<open>The accumulator object: keys and sums\<close>

lemma keys_setProp:
  "k \<noteq> ''__proto__'' \<Longrightarrow>
   map fst (setProp m k v) = (if k \<in> set (map fst m) then map fst m else map fst m @ [k])"
  by (simp add: setProp_def update_keys)

lemma keys_absorb:
  "''__proto__'' \<notin> set (map CsvEntry.title (butlast r)) \<Longrightarrow>
   map fst (absorb r m) =
     foldl (\<lambda>acc x. if x \<in> set acc then acc else acc @ [x]) (map fst m)
       (map CsvEntry.title (butlast r))"
proof (induction r m rule: absorb.induct)
  case (1 current "next" rest m)
  let ?m' = "setProp m (CsvEntry.title current)
          (orZeroPlus (getProp m (CsvEntry.title current)) (gapSec current next))"
  have b: "butlast (current # next # rest) = current # butlast (next # rest)" by simp
  from 1(2) have c: "CsvEntry.title current \<noteq> ''__proto__''"
    and rest: "''__proto__'' \<notin> set (map CsvEntry.title (butlast (next # rest)))"
    unfolding b by auto
  have "map fst (absorb (current # next # rest) m) = map fst (absorb (next # rest) ?m')"
    by simp
  also have "\<dots> = foldl (\<lambda>acc x. if x \<in> set acc then acc else acc @ [x]) (map fst ?m')
       (map CsvEntry.title (butlast (next # rest)))"
    by (rule 1(1)[OF rest])
  also have "map fst ?m' = (if CsvEntry.title current \<in> set (map fst m) then map fst m
       else map fst m @ [CsvEntry.title current])"
    by (rule keys_setProp[OF c])
  finally show ?case unfolding b by simp
qed simp_all

lemma map_insort_key:
  "map g (insort_key (\<lambda>p. f (g p)) x xs) = insort_key f (g x) (map g xs)"
  by (induction xs) simp_all

lemma map_sort_key_fst:
  "map g (sort_key (\<lambda>p. f (g p)) xs) = sort_key f (map g xs)"
  by (induction xs) (simp_all add: map_insort_key)

lemma keys_ownEntries: "map fst (ownEntries m) = keyOrder (map fst m)"
  by (simp add: ownEntries_def keyOrder_def map_sort_key_fst filter_map comp_def)

lemma titles_closeBlock:
  "map AggregatedActivity.title (activities (closeBlock s e m)) = keyOrder (map fst m)"
  by (simp add: closeBlock_def comp_def keys_ownEntries[symmetric])

lemma titles_blockOfRun:
  "''__proto__'' \<notin> set (map CsvEntry.title (butlast r)) \<Longrightarrow>
   map AggregatedActivity.title (activities (blockOfRun r))
     = keyOrder (firstOccurrences (map CsvEntry.title (butlast r)))"
  by (simp add: blockOfRun_def titles_closeBlock keys_absorb firstOccurrences_def)

lemma keyOrder_no_index:
  "list_all (\<lambda>k. \<not> isArrayIndex k) ks \<Longrightarrow> keyOrder ks = ks"
  by (simp add: keyOrder_def list_all_iff filter_id_conv)

lemma set_firstOccurrences_aux:
  "set (foldl (\<lambda>acc x. if x \<in> set acc then acc else acc @ [x]) a xs) = set a \<union> set xs"
  by (induction xs arbitrary: a) auto

lemma set_firstOccurrences: "set (firstOccurrences xs) = set xs"
  by (simp add: firstOccurrences_def set_firstOccurrences_aux)

lemma set_butlast_runs:
  "r \<in> set (runs thr es) \<Longrightarrow> set (butlast r) \<subseteq> set es"
  using concat_runs[of thr es] by (metis UN_I in_set_butlastD set_concat subsetI)

lemma valueSum_update_Some:
  "map_of m k = Some (JNum a) \<Longrightarrow>
   valueSum (AList.update k (JNum (a + g)) m) = valueSum m + g"
  by (induction m) (auto simp: valueSum_def)

lemma valueSum_update_None:
  "map_of m k = None \<Longrightarrow> valueSum (AList.update k v m) = valueSum m + numOf v"
  by (induction m) (auto simp: valueSum_def)

lemma isNum_update:
  "list_all (\<lambda>p. isNum (snd p)) m \<Longrightarrow> isNum v
    \<Longrightarrow> list_all (\<lambda>p. isNum (snd p)) (AList.update k v m)"
  by (induction m) auto

lemma map_of_isNum:
  "list_all (\<lambda>p. isNum (snd p)) m \<Longrightarrow> map_of m k = Some v \<Longrightarrow> \<exists>a. v = JNum a"
  by (induction m) (auto split: if_splits elim: isNum.elims)

lemma accumulate_safe:
  assumes k: "k \<notin> set objectPrototypeKeys" and num: "list_all (\<lambda>p. isNum (snd p)) m"
  shows "valueSum (setProp m k (orZeroPlus (getProp m k) g)) = valueSum m + g
       \<and> list_all (\<lambda>p. isNum (snd p)) (setProp m k (orZeroPlus (getProp m k) g))"
proof -
  from k have np: "k \<noteq> ''__proto__''" by (auto simp: objectPrototypeKeys_def)
  show ?thesis
  proof (cases "map_of m k")
    case None
    with k np num show ?thesis
      by (simp add: setProp_def getProp_def valueSum_update_None isNum_update)
  next
    case (Some v)
    with map_of_isNum[OF num Some] obtain a where v: "v = JNum a" by blast
    have "(if a = 0 then 0 else a) + g = a + g" by simp
    with Some v np num show ?thesis
      by (simp add: setProp_def getProp_def valueSum_update_Some isNum_update)
  qed
qed

lemma sum_gaps_telescope:
  "r \<noteq> [] \<Longrightarrow> sum_list (gaps r) = of_int (timestamp (last r) - timestamp (hd r)) / 1000"
proof (induction r rule: gaps.induct)
  case (1 current "next" rest)
  then show ?case by (simp add: gapSec_def diff_divide_distrib)
qed simp_all

lemma absorb_safe:
  "list_all (\<lambda>e. CsvEntry.title e \<notin> set objectPrototypeKeys) (butlast r) \<Longrightarrow>
   list_all (\<lambda>p. isNum (snd p)) m \<Longrightarrow>
   valueSum (absorb r m) = valueSum m + sum_list (gaps r)
   \<and> list_all (\<lambda>p. isNum (snd p)) (absorb r m)"
proof (induction r m rule: absorb.induct)
  case (1 current "next" rest m)
  let ?m' = "setProp m (CsvEntry.title current)
          (orZeroPlus (getProp m (CsvEntry.title current)) (gapSec current next))"
  have b: "butlast (current # next # rest) = current # butlast (next # rest)" by simp
  from 1(2) have c: "CsvEntry.title current \<notin> set objectPrototypeKeys"
    and rest: "list_all (\<lambda>e. CsvEntry.title e \<notin> set objectPrototypeKeys) (butlast (next # rest))"
    unfolding b by auto
  from accumulate_safe[OF c 1(3), of "gapSec current next"]
  have s: "valueSum ?m' = valueSum m + gapSec current next"
    and n: "list_all (\<lambda>p. isNum (snd p)) ?m'" by auto
  from 1(1)[OF rest n] s show ?case by simp
qed simp_all

lemma mset_ownEntries: "mset (ownEntries m) = mset m"
  by (simp add: ownEntries_def)

lemma foldl_jsPlus_num:
  "list_all isNum vs \<Longrightarrow> foldl jsPlus (JNum a) vs = JNum (a + sum_list (map numOf vs))"
proof (induction vs arbitrary: a)
  case (Cons v vs)
  then obtain b where "v = JNum b" by (cases v) auto
  with Cons show ?case by (simp add: add.assoc)
qed simp

lemma total_closeBlock_num:
  assumes "list_all (\<lambda>p. isNum (snd p)) m"
  shows "AggregatedBlock.totalDurationSec (closeBlock s e m) = JNum (valueSum m)"
proof -
  have "set (ownEntries m) = set m" using mset_ownEntries[of m] by (metis set_mset_mset)
  with assms have "list_all isNum (map snd (ownEntries m))"
    by (simp add: list_all_iff)
  moreover have "sum_list (map numOf (map snd (ownEntries m))) = valueSum m"
  proof -
    have "sum_list (map (\<lambda>p. numOf (snd p)) (ownEntries m)) = sum_mset (image_mset (\<lambda>p. numOf (snd p)) (mset (ownEntries m)))"
      by (metis mset_map sum_mset_sum_list)
    also have "\<dots> = sum_list (map (\<lambda>p. numOf (snd p)) m)"
      unfolding mset_ownEntries by (metis mset_map sum_mset_sum_list)
    finally show ?thesis by (simp add: valueSum_def comp_def)
  qed
  ultimately show ?thesis by (simp add: closeBlock_def foldl_jsPlus_num)
qed

lemma total_closeBlock_activities:
  "AggregatedBlock.totalDurationSec (closeBlock s e m)
    = foldl jsPlus (JNum 0) (map durationSec (activities (closeBlock s e m)))"
  by (simp add: closeBlock_def comp_def)

lemma distinct_keys_setProp:
  "distinct (map fst m) \<Longrightarrow> distinct (map fst (setProp m k v))"
  by (simp add: setProp_def distinct_update)

lemma distinct_keys_absorb:
  "distinct (map fst m) \<Longrightarrow> distinct (map fst (absorb r m))"
  by (induction r m rule: absorb.induct) (simp_all add: distinct_keys_setProp)

lemma distinct_titles_closeBlock:
  assumes "distinct (map fst m)"
  shows "distinct (map AggregatedActivity.title (activities (closeBlock s e m)))"
proof -
  have "mset (map fst (ownEntries m)) = mset (map fst m)"
    by (simp add: mset_ownEntries)
  with assms have "distinct (map fst (ownEntries m))"
    by (metis mset_eq_imp_distinct_iff)
  then show ?thesis by (simp add: closeBlock_def comp_def)
qed

lemma safe_run_total:
  assumes "list_all (\<lambda>e. CsvEntry.title e \<notin> set objectPrototypeKeys) (butlast r)"
  shows "AggregatedBlock.totalDurationSec (blockOfRun r) = JNum (sum_list (gaps r))"
proof -
  from absorb_safe[OF assms, of "[]"]
  have "valueSum (absorb r []) = sum_list (gaps r)"
    and "list_all (\<lambda>p. isNum (snd p)) (absorb r [])" by (simp_all add: valueSum_def)
  then show ?thesis by (simp add: blockOfRun_def total_closeBlock_num)
qed

section \<open>Extending the input by one record\<close>

lemma runs_snoc:
  "runs thr (es @ [a, b]) =
    (if gapLeq (gapSec a b) thr
     then butlast (runs thr (es @ [a])) @ [last (runs thr (es @ [a])) @ [b]]
     else runs thr (es @ [a]) @ [[b]])"
proof (induction es)
  case Nil
  then show ?case by simp
next
  case (Cons c es)
  obtain n rest where nr: "es @ [a] = n # rest" by (cases es) auto
  then have nr2: "es @ [a, b] = n # rest @ [b]"
    by (metis append_Cons append_assoc append_Nil)
  obtain r rs where shape: "runs thr (n # rest) = (n # r) # rs"
    using runs_Cons_shape by blast
  obtain r' rs' where shape': "runs thr (n # rest @ [b]) = (n # r') # rs'"
    using runs_Cons_shape by blast
  have g: "(c # es) @ [a, b] = c # n # rest @ [b]" "(c # es) @ [a] = c # n # rest"
    using nr nr2 by simp_all
  show ?case unfolding g using Cons[unfolded nr nr2] shape shape'
    by (cases "gapLeq (gapSec c n) thr"; cases "gapLeq (gapSec a b) thr"; cases rs)
       (auto split: if_splits)
qed

lemma absorb_snoc:
  "absorb (r @ [a, b]) m =
     setProp (absorb (r @ [a]) m) (CsvEntry.title a)
       (orZeroPlus (getProp (absorb (r @ [a]) m) (CsvEntry.title a)) (gapSec a b))"
proof (induction r arbitrary: m)
  case Nil
  then show ?case by simp
next
  case (Cons c r)
  obtain n rest where nr: "r @ [a] = n # rest" by (cases r) auto
  then have nr2: "r @ [a, b] = n # rest @ [b]"
    by (metis append_Cons append_assoc append_Nil)
  have g: "(c # r) @ [a, b] = c # n # rest @ [b]" "(c # r) @ [a] = c # n # rest"
    using nr nr2 by simp_all
  show ?case unfolding g using Cons[unfolded nr nr2] by simp
qed

lemma runs_snoc_last:
  "last (last (runs thr (es @ [a]))) = a \<and> runs thr (es @ [a]) \<noteq> []"
  using runs_last[of "es @ [a]" thr] by simp

lemma aggregate_snoc:
  fixes es a b thr
  defines "r \<equiv> last (runs thr (es @ [a]))"
  shows "last (aggregateToBlocks (es @ [a]) thr)
           = closeBlock (timestamp (hd r)) (timestamp a) (absorb r [])"
    and "gapLeq (gapSec a b) thr \<Longrightarrow>
         aggregateToBlocks (es @ [a, b]) thr =
           butlast (aggregateToBlocks (es @ [a]) thr)
           @ [closeBlock (timestamp (hd r)) (timestamp b)
                (setProp (absorb r []) (CsvEntry.title a)
                   (orZeroPlus (getProp (absorb r []) (CsvEntry.title a)) (gapSec a b)))]"
    and "\<not> gapLeq (gapSec a b) thr \<Longrightarrow>
         aggregateToBlocks (es @ [a, b]) thr =
           aggregateToBlocks (es @ [a]) thr
           @ [\<lparr> from_t = timestamp b, to_t = timestamp b,
                AggregatedBlock.totalDurationSec = JNum 0, activities = [] \<rparr>]"
proof -
  from runs_snoc_last[of thr es a]
  have la: "last r = a" and ne: "runs thr (es @ [a]) \<noteq> []" by (simp_all add: r_def)
  have rne: "r \<noteq> []" using runs_nonempty[of thr "es @ [a]"] ne
    by (metis last_in_set r_def)
  then obtain r0 where r0: "r = r0 @ [a]" using la by (metis append_butlast_last_id)
  show "last (aggregateToBlocks (es @ [a]) thr)
           = closeBlock (timestamp (hd r)) (timestamp a) (absorb r [])"
    using ne la by (simp add: aggregate_runs last_map blockOfRun_def r_def)
  have hd: "hd (r @ [b]) = hd r" using rne by simp
  have ab: "absorb (r @ [b]) [] = setProp (absorb r []) (CsvEntry.title a)
                   (orZeroPlus (getProp (absorb r []) (CsvEntry.title a)) (gapSec a b))"
    using absorb_snoc[of r0 a b "[]"] by (simp add: r0)
  show "aggregateToBlocks (es @ [a, b]) thr =
           butlast (aggregateToBlocks (es @ [a]) thr)
           @ [closeBlock (timestamp (hd r)) (timestamp b)
                (setProp (absorb r []) (CsvEntry.title a)
                   (orZeroPlus (getProp (absorb r []) (CsvEntry.title a)) (gapSec a b)))]"
    if "gapLeq (gapSec a b) thr"
    using that hd ab
    by (simp add: aggregate_runs runs_snoc map_butlast blockOfRun_def r_def[symmetric])
  show "aggregateToBlocks (es @ [a, b]) thr =
           aggregateToBlocks (es @ [a]) thr
           @ [\<lparr> from_t = timestamp b, to_t = timestamp b,
                AggregatedBlock.totalDurationSec = JNum 0, activities = [] \<rparr>]"
    if "\<not> gapLeq (gapSec a b) thr"
    using that by (simp add: aggregate_runs runs_snoc blockOfRun_single singleBlock_def)
qed

section \<open>Invariants of the emitted blocks\<close>

text \<open>
  What holds of every block emitted for a timestamp-sorted input: it starts no later than
  it ends, its total is the \<^verbatim>\<open>+\<close>-sum of its activities' durations, and no title is
  listed twice.  When no title is the name of a property of \<^verbatim>\<open>Object.prototype\<close>, the
  total is the sum of the gaps absorbed into the block, which is the time from its start to
  its end.
\<close>

lemma block_invariants:
  assumes srt: "sorted (map timestamp es)" and b: "b \<in> set (aggregateToBlocks es thr)"
  shows "from_t b \<le> to_t b"
    and "AggregatedBlock.totalDurationSec b
           = foldl jsPlus (JNum 0) (map durationSec (activities b))"
    and "distinct (map AggregatedActivity.title (activities b))"
    and "list_all (\<lambda>e. CsvEntry.title e \<notin> set objectPrototypeKeys) es \<Longrightarrow>
           AggregatedBlock.totalDurationSec b = JNum (of_int (to_t b - from_t b) / 1000)"
proof -
  from b obtain r where r: "r \<in> set (runs thr es)" and br: "b = blockOfRun r"
    by (auto simp: aggregate_runs)
  from r runs_nonempty[of thr es] have ne: "r \<noteq> []" by auto
  from runs_sorted[OF srt, of thr] r have "sorted (map timestamp r)"
    by (simp add: list_all_iff)
  from sorted_hd_le_last[OF this ne] show "from_t b \<le> to_t b"
    by (simp add: br from_blockOfRun to_blockOfRun)
  show "AggregatedBlock.totalDurationSec b
           = foldl jsPlus (JNum 0) (map durationSec (activities b))"
    unfolding br blockOfRun_def by (rule total_closeBlock_activities)
  show "distinct (map AggregatedActivity.title (activities b))"
    unfolding br blockOfRun_def
    by (rule distinct_titles_closeBlock) (simp add: distinct_keys_absorb)
  show "AggregatedBlock.totalDurationSec b = JNum (of_int (to_t b - from_t b) / 1000)"
    if safe: "list_all (\<lambda>e. CsvEntry.title e \<notin> set objectPrototypeKeys) es"
  proof -
    from set_butlast_runs[OF r] safe
    have "list_all (\<lambda>e. CsvEntry.title e \<notin> set objectPrototypeKeys) (butlast r)"
      by (auto simp: list_all_iff)
    from safe_run_total[OF this] sum_gaps_telescope[OF ne] show ?thesis
      by (simp add: br from_blockOfRun to_blockOfRun)
  qed
qed

lemma isArrayIndex_examples:
  "isArrayIndex ''1''" "isArrayIndex ''2''" "\<not> isArrayIndex ''a''" "\<not> isArrayIndex ''b''"
  "\<not> isArrayIndex ''c''"
  by (simp_all add: isArrayIndex_def isDigit_def digitsValue_def)

section \<open>The loop of the parser\<close>

lemma parseLines_acc:
  "parseLines nd tn ls acc = acc @ parseLines nd tn ls []"
proof (induction ls arbitrary: acc)
  case (Cons l ls)
  show ?case
  proof (cases "parseLine nd tn l")
    case None
    with Cons[of acc] show ?thesis by simp
  next
    case (Some e)
    with Cons[of "acc @ [e]"] Cons[of "[e]"] show ?thesis by simp
  qed
qed simp

lemma parseLines_append:
  "parseLines nd tn (ls1 @ ls2) acc = parseLines nd tn ls2 (parseLines nd tn ls1 acc)"
  by (induction ls1 arbitrary: acc) (simp_all split: option.split)

lemma parseLines_map_filter:
  "parseLines nd tn ls [] = List.map_filter (parseLine nd tn) ls"
proof (induction ls)
  case (Cons l ls)
  then show ?case
    using parseLines_acc[of nd tn ls "[x]" for x]
    by (simp add: List.map_filter_simps split: option.split)
qed (simp add: List.map_filter_simps)

lemma splitComma_nonempty: "splitComma s \<noteq> []"
  by (induction s) (auto elim: consHead.elims)

lemma parseLine_None_iff: "parseLine nd tn l = None \<longleftrightarrow> malformed nd l"
  using splitComma_nonempty[of l]
  by (auto simp: parseLine_def malformed_def Let_def hd_conv_nth split: option.splits)

lemma csvLines_Nil: "csvLines [] = []"
  by (simp add: csvLines_def trim_def)

section \<open>The two grouping loops and the calendar\<close>


























section \<open>Claims about the block aggregator\<close>

text \<open>
  Claim C6.  A single record, whatever the idle threshold, gives exactly one block, from the
  record's timestamp to the same timestamp, with total duration zero and no activities.
  More generally the block that is open when the scan ends is always pushed: a non-empty
  input gives at least one block, and the last block ends at the last record's timestamp;
  on a timestamp-sorted input it starts no later than that.
\<close>

theorem single_record_block:
  "aggregateToBlocks [e] thr =
     [\<lparr> from_t = timestamp e, to_t = timestamp e,
        AggregatedBlock.totalDurationSec = JNum 0, activities = [] \<rparr>]
   \<and> (es \<noteq> [] \<longrightarrow>
        aggregateToBlocks es thr \<noteq> []
        \<and> to_t (last (aggregateToBlocks es thr)) = timestamp (last es)
        \<and> (sorted (map timestamp es) \<longrightarrow>
             from_t (last (aggregateToBlocks es thr)) \<le> timestamp (last es)))"
proof -
  have one: "aggregateToBlocks [e] thr = [singleBlock e]"
    by (simp add: aggregate_runs blockOfRun_single)
  have "aggregateToBlocks es thr \<noteq> []
        \<and> to_t (last (aggregateToBlocks es thr)) = timestamp (last es)
        \<and> (sorted (map timestamp es) \<longrightarrow>
             from_t (last (aggregateToBlocks es thr)) \<le> timestamp (last es))"
    if ne: "es \<noteq> []"
  proof -
    from runs_last[OF ne, of thr]
    have r: "runs thr es \<noteq> []" and l: "last (last (runs thr es)) = last es" by auto
    from r have "last (map blockOfRun (runs thr es)) = blockOfRun (last (runs thr es))"
      by (simp add: last_map)
    with r l have n: "aggregateToBlocks es thr \<noteq> []"
      and t: "to_t (last (aggregateToBlocks es thr)) = timestamp (last es)"
      by (simp_all add: aggregate_runs to_blockOfRun)
    have "from_t (last (aggregateToBlocks es thr)) \<le> timestamp (last es)"
      if srt: "sorted (map timestamp es)"
      using block_invariants(1)[OF srt last_in_set[OF n]] t by simp
    with n t show ?thesis by blast
  qed
  with one show ?thesis by (simp add: singleBlock_def)
qed

theorem single_record_block_witness:
  "aggregateToBlocks [entry 7 ''a''] (Finite 300) =
     [\<lparr> from_t = 7, to_t = 7, AggregatedBlock.totalDurationSec = JNum 0, activities = [] \<rparr>]
   \<and> [entry 0 ''a'', entry 240000 ''b'', entry 600000 ''c''] \<noteq> []
   \<and> aggregateToBlocks [entry 0 ''a'', entry 240000 ''b'', entry 600000 ''c''] (Finite 300) \<noteq> []
   \<and> to_t (last (aggregateToBlocks [entry 0 ''a'', entry 240000 ''b'', entry 600000 ''c'']
         (Finite 300))) = 600000
   \<and> sorted (map timestamp [entry 0 ''a'', entry 240000 ''b'', entry 600000 ''c''])
   \<and> from_t (last (aggregateToBlocks [entry 0 ''a'', entry 240000 ''b'', entry 600000 ''c'']
         (Finite 300))) \<le> 600000"
  using single_record_block[where e = "entry 7 ''a''" and thr = "Finite 300"
      and es = "[entry 0 ''a'', entry 240000 ''b'', entry 600000 ''c'']"]
  by (simp add: entry_def)

text \<open>
  Claim C7.  With a strictly negative idle threshold, a timestamp-sorted input of \<open>n\<close>
  records gives \<open>n\<close> blocks, one per record in order, each from the record's timestamp to
  the same timestamp, with total duration zero and no activities.
\<close>

theorem negative_threshold_one_block_per_record:
  "isNegative thr \<Longrightarrow> sorted (map timestamp es) \<Longrightarrow>
     aggregateToBlocks es thr =
       map (\<lambda>e. \<lparr> from_t = timestamp e, to_t = timestamp e,
                  AggregatedBlock.totalDurationSec = JNum 0, activities = [] \<rparr>) es
     \<and> length (aggregateToBlocks es thr) = length es"
proof -
  assume "isNegative thr" "sorted (map timestamp es)"
  then have "runs thr es = map (\<lambda>e. [e]) es" by (rule runs_negative)
  then have "aggregateToBlocks es thr = map singleBlock es"
    by (simp add: aggregate_runs blockOfRun_single comp_def)
  then show ?thesis by (simp add: singleBlock_def)
qed

theorem negative_threshold_one_block_per_record_witness:
  "isNegative (Finite (- 1))
   \<and> sorted (map timestamp [entry 0 ''a'', entry 0 ''b'', entry 5000 ''a''])
   \<and> aggregateToBlocks [entry 0 ''a'', entry 0 ''b'', entry 5000 ''a''] (Finite (- 1)) =
       [\<lparr> from_t = 0, to_t = 0, AggregatedBlock.totalDurationSec = JNum 0, activities = [] \<rparr>,
        \<lparr> from_t = 0, to_t = 0, AggregatedBlock.totalDurationSec = JNum 0, activities = [] \<rparr>,
        \<lparr> from_t = 5000, to_t = 5000, AggregatedBlock.totalDurationSec = JNum 0,
          activities = [] \<rparr>]"
  using negative_threshold_one_block_per_record[of "Finite (- 1)"
      "[entry 0 ''a'', entry 0 ''b'', entry 5000 ''a'']"]
  by (simp add: entry_def)

text \<open>
  Claim C10.  With an idle threshold of at least zero and a timestamp-sorted input, the gap
  from each block's end to the next block's start exceeds the threshold; every block starts
  no later than it ends; every block ends before every later block starts, so no two blocks
  overlap; and the blocks are strictly ascending by their start.
\<close>

theorem blocks_ordered_disjoint:
  assumes thr: "isNonNegative thr" and srt: "sorted (map timestamp es)"
  shows "successively (\<lambda>b1 b2. gapGreater (of_int (from_t b2 - to_t b1) / 1000) thr)
           (aggregateToBlocks es thr)
       \<and> list_all (\<lambda>b. from_t b \<le> to_t b) (aggregateToBlocks es thr)
       \<and> sorted_wrt (\<lambda>b1 b2. to_t b1 < from_t b2) (aggregateToBlocks es thr)
       \<and> sorted_wrt (<) (map from_t (aggregateToBlocks es thr))"
proof -
  let ?bs = "aggregateToBlocks es thr"
  have gap: "successively (\<lambda>b1 b2. gapGreater (of_int (from_t b2 - to_t b1) / 1000) thr
               \<and> to_t b1 < from_t b2) ?bs"
    unfolding aggregate_runs successively_map
  proof (rule successively_mono[OF runs_between])
    fix r1 r2
    assume "\<not> gapLeq (gapSec (last r1) (hd r2)) thr"
    from not_leq_greater[OF thr this]
    show "gapGreater (of_int (from_t (blockOfRun r2) - to_t (blockOfRun r1)) / 1000) thr
          \<and> to_t (blockOfRun r1) < from_t (blockOfRun r2)"
      by (simp add: from_blockOfRun to_blockOfRun gapSec_def)
  qed
  have g1: "successively (\<lambda>b1 b2. gapGreater (of_int (from_t b2 - to_t b1) / 1000) thr) ?bs"
    by (rule successively_mono[OF gap]) simp
  have g2: "successively (\<lambda>b1 b2. to_t b1 < from_t b2) ?bs"
    by (rule successively_mono[OF gap]) simp
  have le: "list_all (\<lambda>b. from_t b \<le> to_t b) ?bs"
    using runs_sorted[OF srt, of thr] runs_nonempty[of thr es]
    by (auto simp: aggregate_runs list_all_iff from_blockOfRun to_blockOfRun
             intro!: sorted_hd_le_last)
  have dis: "sorted_wrt (\<lambda>b1 b2. to_t b1 < from_t b2) ?bs"
    by (rule chain_sorted_wrt[OF g2 le])
  have "sorted_wrt (\<lambda>b1 b2. from_t b1 < from_t b2) ?bs"
  proof (rule sorted_wrt_mono_rel[OF _ dis])
    fix b1 b2 :: AggregatedBlock
    assume "b1 \<in> set ?bs" "to_t b1 < from_t b2"
    with le show "from_t b1 < from_t b2" by (auto simp: list_all_iff)
  qed
  then have "sorted_wrt (<) (map from_t ?bs)" by (simp add: sorted_wrt_map)
  with g1 le dis show ?thesis by simp
qed

theorem blocks_ordered_disjoint_witness:
  "isNonNegative (Finite 300)
   \<and> sorted (map timestamp [entry 0 ''a'', entry 240000 ''b'', entry 600000 ''c''])
   \<and> successively (\<lambda>b1 b2. gapGreater (of_int (from_t b2 - to_t b1) / 1000) (Finite 300))
           (aggregateToBlocks [entry 0 ''a'', entry 240000 ''b'', entry 600000 ''c''] (Finite 300))
   \<and> map from_t (aggregateToBlocks [entry 0 ''a'', entry 240000 ''b'', entry 600000 ''c'']
         (Finite 300)) = [0, 600000]
   \<and> map to_t (aggregateToBlocks [entry 0 ''a'', entry 240000 ''b'', entry 600000 ''c'']
         (Finite 300)) = [240000, 600000]"
  using blocks_ordered_disjoint[of "Finite 300"
      "[entry 0 ''a'', entry 240000 ''b'', entry 600000 ''c'']"]
  by (simp add: entry_def aggregateToBlocks_def gapSec_def closeBlock_def)

text \<open>
  Claim C1.  A pair of consecutive records is merged into the open block exactly when its
  gap is at most the threshold (\<open>aggregate_runs\<close> with \<open>runs_within\<close> and
  \<open>runs_between\<close>, and \<open>aggregate_snoc\<close> for the effect on the output).  The claim
  adds that an absorbed gap is attributed to the earlier record's title.  That fails for a
  title that names a property of \<^verbatim>\<open>Object.prototype\<close>: with a gap exactly equal to
  the threshold after a record titled \<^verbatim>\<open>__proto__\<close>, the block's end advances to the
  later record, and the gap is attributed to no title at all.  With the title
  \<^verbatim>\<open>Read\<close> in its place the same gap is attributed as claimed.
\<close>

theorem gap_absorbed_without_attribution:
  "gapLeq (gapSec (entry 0 ''__proto__'') (entry 300000 ''Write'')) (Finite 300)
   \<and> aggregateToBlocks [entry 0 ''__proto__'', entry 300000 ''Write''] (Finite 300) =
     [\<lparr> from_t = 0, to_t = 300000, AggregatedBlock.totalDurationSec = JNum 0,
        activities = [] \<rparr>]
   \<and> aggregateToBlocks [entry 0 ''Read'', entry 300000 ''Write''] (Finite 300) =
     [\<lparr> from_t = 0, to_t = 300000, AggregatedBlock.totalDurationSec = JNum 300,
        activities = [\<lparr> AggregatedActivity.title = ''Read'', durationSec = JNum 300 \<rparr>] \<rparr>]"
  by (simp add: aggregateToBlocks_def entry_def gapSec_def setProp_def getProp_def
      closeBlock_def ownEntries_def objectPrototypeKeys_def isArrayIndex_def isDigit_def)

text \<open>
  Claim C2.  Of the invariants claimed for an emitted block, \<open>block_invariants\<close> proves
  that it starts no later than it ends, that its total is the sum of its activities'
  durations and that no title is listed twice.  The total is not always the sum of the gaps
  absorbed into the block: the gap after a record titled \<^verbatim>\<open>__proto__\<close> is absorbed
  and counted nowhere.  Here two gaps of 60 seconds are absorbed and the total is 60.
\<close>

theorem total_misses_absorbed_gap:
  "aggregateToBlocks
     [entry 0 ''__proto__'', entry 60000 ''Write'', entry 120000 ''Write''] (Finite 300) =
     [\<lparr> from_t = 0, to_t = 120000, AggregatedBlock.totalDurationSec = JNum 60,
        activities = [\<lparr> AggregatedActivity.title = ''Write'', durationSec = JNum 60 \<rparr>] \<rparr>]
   \<and> sum_list (gaps [entry 0 ''__proto__'', entry 60000 ''Write'', entry 120000 ''Write''])
       = 120"
  by (simp add: aggregateToBlocks_def entry_def gapSec_def setProp_def getProp_def
      closeBlock_def ownEntries_def objectPrototypeKeys_def isArrayIndex_def isDigit_def)

text \<open>
  Claim C9, as stated: the activities of a block list its titles in order of first
  occurrence, whatever the titles are.  It fails when titles are array indices:
  \<^verbatim>\<open>Object.entries\<close> lists those first, in ascending numeric order.
\<close>

theorem activities_not_in_insertion_order:
  "map AggregatedActivity.title (activities (hd (aggregateToBlocks
      [entry 0 ''b'', entry 1000 ''2'', entry 2000 ''1'', entry 3000 ''b''] (Finite 300))))
     = [''1'', ''2'', ''b'']
   \<and> map AggregatedActivity.title (activities (hd (aggregateToBlocks
      [entry 0 ''b'', entry 1000 ''2'', entry 2000 ''1'', entry 3000 ''b''] (Finite 300))))
     \<noteq> firstOccurrences
          (map CsvEntry.title [entry 0 ''b'', entry 1000 ''2'', entry 2000 ''1''])"
  by (simp add: aggregateToBlocks_def entry_def gapSec_def setProp_def getProp_def
      closeBlock_def ownEntries_def objectPrototypeKeys_def isArrayIndex_def isDigit_def
      digitsValue_def firstOccurrences_def)

text \<open>
  Claim C9, amended.  In every emitted block the titles that are array indices (canonical
  decimal strings of integers from 0 to \<open>2^32 - 2\<close>) come first, in ascending numeric order,
  followed by the other titles in order of first occurrence among the records whose gaps
  the block absorbed; when no title is an array index, the titles are in order of first
  occurrence.  Stated for inputs without the title \<^verbatim>\<open>__proto__\<close>.
\<close>

theorem activities_in_key_order:
  assumes "''__proto__'' \<notin> set (map CsvEntry.title es)"
  shows "map (\<lambda>b. map AggregatedActivity.title (activities b)) (aggregateToBlocks es thr)
       = map (\<lambda>r. keyOrder (firstOccurrences (map CsvEntry.title (butlast r)))) (runs thr es)
       \<and> (list_all (\<lambda>e. \<not> isArrayIndex (CsvEntry.title e)) es \<longrightarrow>
            map (\<lambda>b. map AggregatedActivity.title (activities b)) (aggregateToBlocks es thr)
            = map (\<lambda>r. firstOccurrences (map CsvEntry.title (butlast r))) (runs thr es))"
proof -
  have safe: "''__proto__'' \<notin> set (map CsvEntry.title (butlast r))" if "r \<in> set (runs thr es)" for r
    using set_butlast_runs[OF that] assms by auto
  have main: "map (\<lambda>b. map AggregatedActivity.title (activities b)) (aggregateToBlocks es thr)
       = map (\<lambda>r. keyOrder (firstOccurrences (map CsvEntry.title (butlast r)))) (runs thr es)"
    unfolding aggregate_runs map_map comp_def
    by (rule map_cong[OF refl]) (rule titles_blockOfRun[OF safe])
  have "keyOrder (firstOccurrences (map CsvEntry.title (butlast r)))
        = firstOccurrences (map CsvEntry.title (butlast r))"
    if r: "r \<in> set (runs thr es)" and noidx: "list_all (\<lambda>e. \<not> isArrayIndex (CsvEntry.title e)) es" for r
  proof (rule keyOrder_no_index)
    show "list_all (\<lambda>k. \<not> isArrayIndex k) (firstOccurrences (map CsvEntry.title (butlast r)))"
      using set_butlast_runs[OF r] noidx
      by (auto simp: list_all_iff set_firstOccurrences)
  qed
  with main show ?thesis by (simp cong: map_cong)
qed

theorem activities_in_key_order_witness:
  "''__proto__'' \<notin> set (map CsvEntry.title
       [entry 0 ''b'', entry 1000 ''2'', entry 2000 ''1'', entry 3000 ''b''])
   \<and> map (\<lambda>b. map AggregatedActivity.title (activities b))
        (aggregateToBlocks [entry 0 ''b'', entry 1000 ''2'', entry 2000 ''1'', entry 3000 ''b'']
           (Finite 300))
       = [[''1'', ''2'', ''b'']]
   \<and> list_all (\<lambda>e. \<not> isArrayIndex (CsvEntry.title e))
        [entry 0 ''b'', entry 1000 ''a'', entry 2000 ''b'', entry 3000 ''c'']
   \<and> map (\<lambda>b. map AggregatedActivity.title (activities b))
        (aggregateToBlocks [entry 0 ''b'', entry 1000 ''a'', entry 2000 ''b'', entry 3000 ''c'']
           (Finite 300))
       = [[''b'', ''a'']]"
  using activities_in_key_order[of
      "[entry 0 ''b'', entry 1000 ''2'', entry 2000 ''1'', entry 3000 ''b'']" "Finite 300"]
    activities_in_key_order[of
      "[entry 0 ''b'', entry 1000 ''a'', entry 2000 ''b'', entry 3000 ''c'']" "Finite 300"]
  by (simp add: entry_def gapSec_def firstOccurrences_def keyOrder_def isArrayIndex_examples
      digitsValue_def)

section \<open>Claims about the record parser\<close>

text \<open>
  Claim C5.  For every input text the parser's output is sorted non-decreasing by timestamp,
  and the sort is stable: the records of any one timestamp appear in the output in the
  order of their lines in the input.  The output is a rearrangement of the records parsed
  from the lines.
\<close>

theorem parser_output_sorted_stable:
  "sorted (map timestamp (parseCsv nd tn csvText))
   \<and> (\<forall>t. filter (\<lambda>e. timestamp e = t) (parseCsv nd tn csvText)
          = filter (\<lambda>e. timestamp e = t) (List.map_filter (parseLine nd tn) (csvLines csvText)))
   \<and> mset (parseCsv nd tn csvText) = mset (List.map_filter (parseLine nd tn) (csvLines csvText))"
  by (simp add: parseCsv_def parseLines_map_filter sort_key_stable)

theorem parser_output_sorted_stable_witness:
  "parseCsv exampleDate exampleNumber
     (''1970-01-01T00:01:00Z,App,c'' @ [CHR 0x0A] @ ''1970-01-01T00:00:00Z,App,b'' @ [CHR 0x0A]
      @ ''1970-01-01T00:00:00Z,App,a'')
     = [entry 0 ''b'', entry 0 ''a'', entry 60000 ''c'']
   \<and> List.map_filter (parseLine exampleDate exampleNumber) (csvLines
     (''1970-01-01T00:01:00Z,App,c'' @ [CHR 0x0A] @ ''1970-01-01T00:00:00Z,App,b'' @ [CHR 0x0A]
      @ ''1970-01-01T00:00:00Z,App,a''))
     = [entry 60000 ''c'', entry 0 ''b'', entry 0 ''a'']
   \<and> sorted (map timestamp (parseCsv exampleDate exampleNumber
     (''1970-01-01T00:01:00Z,App,c'' @ [CHR 0x0A] @ ''1970-01-01T00:00:00Z,App,b'' @ [CHR 0x0A]
      @ ''1970-01-01T00:00:00Z,App,a'')))"
proof -
  have l: "List.map_filter (parseLine exampleDate exampleNumber) (csvLines
     (''1970-01-01T00:01:00Z,App,c'' @ [CHR 0x0A] @ ''1970-01-01T00:00:00Z,App,b'' @ [CHR 0x0A]
      @ ''1970-01-01T00:00:00Z,App,a''))
     = [entry 60000 ''c'', entry 0 ''b'', entry 0 ''a'']"
    by (simp add: csvLines_def trim_def isWhiteSpace_def List.map_filter_simps parseLine_def
        exampleDate_def entry_def)
  have p: "parseCsv exampleDate exampleNumber
     (''1970-01-01T00:01:00Z,App,c'' @ [CHR 0x0A] @ ''1970-01-01T00:00:00Z,App,b'' @ [CHR 0x0A]
      @ ''1970-01-01T00:00:00Z,App,a'')
     = [entry 0 ''b'', entry 0 ''a'', entry 60000 ''c'']"
    unfolding parseCsv_def parseLines_map_filter l by (simp add: entry_def)
  show ?thesis
    using parser_output_sorted_stable[of exampleDate exampleNumber
      "''1970-01-01T00:01:00Z,App,c'' @ [CHR 0x0A] @ ''1970-01-01T00:00:00Z,App,b'' @ [CHR 0x0A]
      @ ''1970-01-01T00:00:00Z,App,a''"] l p
    by simp
qed

text \<open>
  Claim C8.  The parser has a result for every text and signals no error: \<open>parseCsv\<close> is a
  total function to lists of records, the source has no \<^verbatim>\<open>throw\<close>, and none of the host
  functions it applies to strings throws.  A line is dropped exactly when it has fewer than
  three comma-separated fields or its first field is no valid timestamp; dropping it leaves
  the parse of the other lines as it is; the empty text, and a text with malformed lines
  only, give the empty sequence.
\<close>

theorem parser_drops_malformed_lines:
  "parseCsv nd tn [] = []
   \<and> (parseLine nd tn l = None) = malformed nd l
   \<and> (malformed nd l \<longrightarrow>
        parseLines nd tn (before @ l # after) acc = parseLines nd tn (before @ after) acc)
   \<and> (csvLines csvText = before @ l # after \<and> malformed nd l \<longrightarrow>
        parseCsv nd tn csvText = sort_key timestamp (parseLines nd tn (before @ after) []))
   \<and> (list_all (malformed nd) (csvLines csvText') \<longrightarrow> parseCsv nd tn csvText' = [])"
proof -
  have drop: "parseLines nd tn (before @ l # after) acc = parseLines nd tn (before @ after) acc"
    if "malformed nd l" for before after acc
  proof -
    from that have "parseLine nd tn l = None" by (simp add: parseLine_None_iff)
    then show ?thesis by (simp add: parseLines_append)
  qed
  have bad: "parseLine nd tn x = None" if "malformed nd x" for x
    using that by (simp add: parseLine_None_iff)
  have none: "parseLines nd tn ls [] = []" if "list_all (malformed nd) ls" for ls
    using that by (induction ls) (simp_all add: bad)
  show ?thesis
    using drop none[of "csvLines csvText'"]
    by (simp add: parseCsv_def csvLines_Nil parseLine_None_iff)
qed

theorem parser_drops_malformed_lines_witness:
  "malformed exampleDate ''x,y''
   \<and> csvLines (''1970-01-01T00:01:00Z,App,Read'' @ [CHR 0x0D, CHR 0x0A] @ ''x,y'' @ [CHR 0x0A]
         @ ''1970-01-01T00:00:00Z, App , Write ,1,2'')
      = [''1970-01-01T00:01:00Z,App,Read''] @ ''x,y'' # [''1970-01-01T00:00:00Z, App , Write ,1,2'']
   \<and> parseCsv exampleDate exampleNumber
        (''1970-01-01T00:01:00Z,App,Read'' @ [CHR 0x0D, CHR 0x0A] @ ''x,y'' @ [CHR 0x0A]
         @ ''1970-01-01T00:00:00Z, App , Write ,1,2'')
      = [\<lparr> timestamp = 0, appName = ''App'', CsvEntry.title = ''Write'',
            value1 = Finite 1, value2 = Finite 2 \<rparr>,
         \<lparr> timestamp = 60000, appName = ''App'', CsvEntry.title = ''Read'',
            value1 = NaN, value2 = NaN \<rparr>]
   \<and> list_all (malformed exampleDate) (csvLines (''x,y'' @ [CHR 0x0A] @ ''yesterday,App,Read''))
   \<and> parseCsv exampleDate exampleNumber (''x,y'' @ [CHR 0x0A] @ ''yesterday,App,Read'') = []"
proof -
  have m: "malformed exampleDate ''x,y''"
    by (simp add: malformed_def)
  have l: "csvLines (''1970-01-01T00:01:00Z,App,Read'' @ [CHR 0x0D, CHR 0x0A] @ ''x,y'' @ [CHR 0x0A]
         @ ''1970-01-01T00:00:00Z, App , Write ,1,2'')
      = [''1970-01-01T00:01:00Z,App,Read''] @ ''x,y'' # [''1970-01-01T00:00:00Z, App , Write ,1,2'']"
    by (simp add: csvLines_def trim_def isWhiteSpace_def)
  have a: "list_all (malformed exampleDate) (csvLines (''x,y'' @ [CHR 0x0A] @ ''yesterday,App,Read''))"
    by (simp add: csvLines_def trim_def isWhiteSpace_def malformed_def exampleDate_def)
  have p: "sort_key timestamp (parseLines exampleDate exampleNumber
             ([''1970-01-01T00:01:00Z,App,Read''] @ [''1970-01-01T00:00:00Z, App , Write ,1,2'']) [])
      = [\<lparr> timestamp = 0, appName = ''App'', CsvEntry.title = ''Write'',
            value1 = Finite 1, value2 = Finite 2 \<rparr>,
         \<lparr> timestamp = 60000, appName = ''App'', CsvEntry.title = ''Read'',
            value1 = NaN, value2 = NaN \<rparr>]"
    by (simp add: parseLine_def trim_def isWhiteSpace_def exampleDate_def exampleNumber_def)
  show ?thesis
    using parser_drops_malformed_lines[where nd = exampleDate and tn = exampleNumber
      and l = "''x,y''" and before = "[''1970-01-01T00:01:00Z,App,Read'']"
      and after = "[''1970-01-01T00:00:00Z, App , Write ,1,2'']"
      and csvText = "''1970-01-01T00:01:00Z,App,Read'' @ [CHR 0x0D, CHR 0x0A] @ ''x,y'' @ [CHR 0x0A]
         @ ''1970-01-01T00:00:00Z, App , Write ,1,2''"
      and csvText' = "''x,y'' @ [CHR 0x0A] @ ''yesterday,App,Read''"] m l a p
    by simp
qed

section \<open>Claims about the calendar grouper\<close>





end
